theory Spec2Isabelle
  imports Main "HOL-Library.While_Combinator"
begin

section \<open>The script \<open>scripts/py-scripts/main.py\<close>\<close>

text \<open>
  The repository is one Python script.  Its only function is

  \<^verbatim>\<open>
  @observe
  def add_num(start: int, add: int) -> str:
      if (start) >= 4000:
          return f"The sum is {start + add}"
      return add_num(start + add, add)
  \<close>

  followed by the top-level statements \<^verbatim>\<open>add_num(2, 1)\<close>,
  \<^verbatim>\<open>langfuse = get_client()\<close> and \<^verbatim>\<open>langfuse.flush()\<close>.

  Python integers are unbounded, so \<open>start\<close> and \<open>add\<close> are of type \<^typ>\<open>int\<close>.
  Before the function is defined, line 5 sets the ceiling of the interpreter's stack with
  \<^verbatim>\<open>sys.setrecursionlimit(10000)\<close>.  The decorator \<^verbatim>\<open>observe\<close> and the client returned by
  \<^verbatim>\<open>get_client\<close> belong to the third-party tracing library.
\<close>

subsection \<open>Rendering an integer in an f-string\<close>

text \<open>
  \<^verbatim>\<open>f"{n}"\<close> is \<^verbatim>\<open>str(n)\<close> for an \<^verbatim>\<open>int\<close>: the decimal digits, most significant first,
  no leading zero, and a leading minus sign for a negative number.
\<close>

definition digit :: "nat \<Rightarrow> char" where
  "digit d = ''0123456789'' ! d"

fun str_nat :: "nat \<Rightarrow> string" where
  "str_nat n = (if n < 10 then [digit n] else str_nat (n div 10) @ [digit (n mod 10)])"

declare str_nat.simps [simp del]

definition str_int :: "int \<Rightarrow> string" where
  "str_int i = (if i < 0 then CHR ''-'' # str_nat (nat (- i)) else str_nat (nat i))"

definition the_sum_is :: "int \<Rightarrow> string" where
  "the_sum_is n = ''The sum is '' @ str_int n"

subsection \<open>The function \<open>add_num\<close>\<close>

text \<open>
  The body of lines 19 to 21 by itself, on a stack without ceiling.  The recursion need not
  end, so the function is a partial function into \<open>option\<close>: \<open>None\<close> is the call that never
  reaches a \<^verbatim>\<open>return\<close>.  The call as the interpreter runs it, under the ceiling of line 5, is
  \<open>add_num_py\<close> below.
\<close>

partial_function (option) add_num :: "int \<Rightarrow> int \<Rightarrow> string option" where
  "add_num start add =
     (if start \<ge> 4000 then Some (the_sum_is (start + add))
      else add_num (start + add) add)"

declare add_num.simps [code]

text \<open>
  The same body with a budget of nested calls: \<open>add_num_fuel n\<close> is the call that may nest \<open>n\<close>
  activations of \<^verbatim>\<open>add_num\<close>, the outermost included, and \<open>None\<close> is the budget running out.
\<close>

fun add_num_fuel :: "nat \<Rightarrow> int \<Rightarrow> int \<Rightarrow> string option" where
  "add_num_fuel 0 start add = None"
| "add_num_fuel (Suc n) start add =
     (if start \<ge> 4000 then Some (the_sum_is (start + add))
      else add_num_fuel n (start + add) add)"

text \<open>
  The values of the parameter \<open>start\<close> in the successive activations, outermost first, again
  within a budget of nested calls.
\<close>

fun add_num_starts :: "nat \<Rightarrow> int \<Rightarrow> int \<Rightarrow> int list" where
  "add_num_starts 0 start add = []"
| "add_num_starts (Suc n) start add =
     start # (if start \<ge> 4000 then [] else add_num_starts n (start + add) add)"

text \<open>
  The evaluation of a call as a relation between the arguments and the returned string: one
  rule for each \<^verbatim>\<open>return\<close> of the body.
\<close>

inductive add_num_eval :: "int \<Rightarrow> int \<Rightarrow> string \<Rightarrow> bool" where
  terminal: "start \<ge> 4000 \<Longrightarrow> add_num_eval start add (the_sum_is (start + add))"
| recurse: "\<not> start \<ge> 4000 \<Longrightarrow> add_num_eval (start + add) add r \<Longrightarrow> add_num_eval start add r"

code_pred add_num_eval .

subsection \<open>The loop of the specification\<close>


subsection \<open>The call as the interpreter runs it\<close>

text \<open>
  Line 5 of the script, \<^verbatim>\<open>sys.setrecursionlimit(10000)\<close>, sets the ceiling of the interpreter's
  stack.  Every activation of \<^verbatim>\<open>add_num\<close> takes room on that stack, and a call for which no
  room is left raises \<^verbatim>\<open>RecursionError\<close>, which nothing in the script catches.
\<close>

datatype error = RecursionError

definition recursion_limit :: nat where
  "recursion_limit = 10000"

text \<open>
  Modelled from the spec: the decorator \<^verbatim>\<open>observe\<close> and the client of the tracing library,
  which are not part of the repository.  The decorator registers every call of the decorated
  function with the client as an observed unit of work, with its inputs and its outcome, and
  hands the outcome through; \<^verbatim>\<open>flush\<close> delivers what the client has buffered.  \<open>level\<close> is the
  number of observed activations that enclose the call.
\<close>

record observation =
  level :: nat
  arg_start :: int
  arg_add :: int
  outcome :: "error + string"

record telemetry =
  buffered :: "observation list"
  delivered :: "observation list"

definition flush :: "telemetry \<Rightarrow> telemetry" where
  "flush t = \<lparr>buffered = [], delivered = delivered t @ buffered t\<rparr>"

text \<open>
  The decorated function.  The name \<^verbatim>\<open>add_num\<close> in the body is the decorated function too,
  so every activation is observed.  \<open>room\<close> is the number of nested activations the stack
  still has room for; the state of the client is handed in and out.
\<close>

fun add_num_observed ::
  "nat \<Rightarrow> nat \<Rightarrow> int \<Rightarrow> int \<Rightarrow> telemetry \<Rightarrow> (error + string) \<times> telemetry" where
  "add_num_observed 0 lvl start add t = (Inl RecursionError, t)"
| "add_num_observed (Suc room) lvl start add t =
     (let (res, t') =
        (if start \<ge> 4000 then (Inr (the_sum_is (start + add)), t)
         else add_num_observed room (Suc lvl) (start + add) add t)
      in (res, t'\<lparr>buffered := buffered t' @
            [\<lparr>level = lvl, arg_start = start, arg_add = add, outcome = res\<rparr>]\<rparr>))"

text \<open>
  A call from outside any activation.  Whatever room the caller's stack has, the ceiling of
  line 5 bounds it: since an activation takes at least one frame, never more than
  \<open>recursion_limit\<close> activations are nested.
\<close>

definition add_num_py ::
  "nat \<Rightarrow> int \<Rightarrow> int \<Rightarrow> telemetry \<Rightarrow> (error + string) \<times> telemetry" where
  "add_num_py room start add t = add_num_observed (min room recursion_limit) 0 start add t"

subsection \<open>The script's top level\<close>

text \<open>
  The top level runs three statements in order: the call \<^verbatim>\<open>add_num(2, 1)\<close>, an expression
  statement whose value is dropped; \<^verbatim>\<open>langfuse = get_client()\<close>, which binds the one client
  of the process; and \<^verbatim>\<open>langfuse.flush()\<close>.  A script that runs to its end leaves the
  interpreter with exit status 0; an exception that nothing catches ends it at once with a
  traceback on the error stream and exit status 1.  \<open>room\<close> is the room that the stack has for
  nested activations of \<^verbatim>\<open>add_num\<close> at the top level.
\<close>

record process =
  stdout :: "string list"
  stderr :: "string list"
  client :: telemetry
  exit_status :: "int option"

definition initial :: process where
  "initial = \<lparr>stdout = [], stderr = [], client = \<lparr>buffered = [], delivered = []\<rparr>,
     exit_status = None\<rparr>"

definition traceback :: "error \<Rightarrow> string" where
  "traceback e = (case e of RecursionError \<Rightarrow> ''RecursionError'')"

definition uncaught :: "error \<Rightarrow> process \<Rightarrow> process" where
  "uncaught e p = p\<lparr>stderr := stderr p @ [traceback e], exit_status := Some 1\<rparr>"

definition call_add_num :: "nat \<Rightarrow> int \<Rightarrow> int \<Rightarrow> process \<Rightarrow> (error + string) \<times> process" where
  "call_add_num room start add p =
     (let (res, t) = add_num_py room start add (client p) in (res, p\<lparr>client := t\<rparr>))"

definition get_client :: "process \<Rightarrow> telemetry" where
  "get_client p = client p"

definition script :: "nat \<Rightarrow> process \<Rightarrow> process" where
  "script room p0 =
     (case call_add_num room 2 1 p0 of
        (Inl e, p1) \<Rightarrow> uncaught e p1
      | (Inr r, p1) \<Rightarrow>
          (let langfuse = get_client p1;
               p2 = p1\<lparr>client := flush langfuse\<rparr>
           in p2\<lparr>exit_status := Some 0\<rparr>))"

section \<open>Properties\<close>

subsection \<open>The recursion, its budgeted form and its evaluation relation agree\<close>

lemma add_num_fuel_sound: "add_num_fuel n start add = Some r \<Longrightarrow> add_num start add = Some r"
proof (induction n arbitrary: start)
  case 0
  then show ?case by simp
next
  case (Suc n)
  show ?case
  proof (cases "start \<ge> 4000")
    case True
    with Suc.prems show ?thesis by (simp add: add_num.simps)
  next
    case False
    with Suc.prems have "add_num_fuel n (start + add) add = Some r" by simp
    then have "add_num (start + add) add = Some r" by (rule Suc.IH)
    with False show ?thesis by (subst add_num.simps) simp
  qed
qed

lemma add_num_imp_eval:
  assumes "add_num start add = Some r"
  shows "add_num_eval start add r"
proof (rule add_num.raw_induct [OF _ assms])
  fix f s a y
  assume IH: "\<And>s' a' y'. f s' a' = Some y' \<Longrightarrow> add_num_eval s' a' y'"
    and body: "(if s \<ge> 4000 then Some (the_sum_is (s + a)) else f (s + a) a) = Some y"
  show "add_num_eval s a y"
  proof (cases "s \<ge> 4000")
    case True
    with body have "y = the_sum_is (s + a)" by simp
    with True show ?thesis by (simp add: add_num_eval.terminal)
  next
    case False
    with body have "f (s + a) a = Some y" by simp
    then have "add_num_eval (s + a) a y" by (rule IH)
    with False show ?thesis by (rule add_num_eval.recurse)
  qed
qed

lemma add_num_eval_imp_fuel: "add_num_eval start add r \<Longrightarrow> \<exists>n. add_num_fuel n start add = Some r"
proof (induction rule: add_num_eval.induct)
  case (terminal start add)
  then have "add_num_fuel (Suc 0) start add = Some (the_sum_is (start + add))" by simp
  then show ?case by blast
next
  case (recurse start add r)
  then obtain n where "add_num_fuel n (start + add) add = Some r" by blast
  with recurse.hyps(1) have "add_num_fuel (Suc n) start add = Some r" by simp
  then show ?case by blast
qed

subsection \<open>Unrolling the recursion\<close>

lemma add_num_fuel_unroll:
  "(\<forall>j<k. start + int j * add < 4000) \<Longrightarrow>
   add_num_fuel (k + n) start add = add_num_fuel n (start + int k * add) add"
proof (induction k arbitrary: start)
  case 0
  show ?case by simp
next
  case (Suc k)
  from Suc.prems have low: "start < 4000" by force
  have "\<forall>j<k. (start + add) + int j * add < 4000"
  proof (intro allI impI)
    fix j assume "j < k"
    with Suc.prems have "start + int (Suc j) * add < 4000" by blast
    then show "(start + add) + int j * add < 4000" by (simp add: algebra_simps)
  qed
  then have "add_num_fuel (k + n) (start + add) add = add_num_fuel n ((start + add) + int k * add) add"
    by (rule Suc.IH)
  with low show ?case by (simp add: algebra_simps)
qed

lemma add_num_fuel_short:
  "(\<forall>j<k. start + int j * add < 4000) \<Longrightarrow> n \<le> k \<Longrightarrow> add_num_fuel n start add = None"
proof (induction n arbitrary: start k)
  case 0
  show ?case by simp
next
  case (Suc n)
  then obtain k' where k: "k = Suc k'" by (cases k) auto
  from Suc.prems k have low: "start < 4000" by force
  have "\<forall>j<k'. (start + add) + int j * add < 4000"
  proof (intro allI impI)
    fix j assume "j < k'"
    with Suc.prems k have "start + int (Suc j) * add < 4000" by blast
    then show "(start + add) + int j * add < 4000" by (simp add: algebra_simps)
  qed
  moreover from Suc.prems k have "n \<le> k'" by simp
  ultimately have "add_num_fuel n (start + add) add = None" by (rule Suc.IH)
  with low show ?case by simp
qed

lemma first_reach_ex:
  assumes "0 < add"
  shows "\<exists>k. 4000 \<le> start + int k * add \<and> (\<forall>j<k. start + int j * add < 4000)"
proof -
  have "4000 \<le> start + int (nat (4000 - start)) * add"
  proof (cases "start \<ge> 4000")
    case True then show ?thesis by simp
  next
    case False
    then have "int (nat (4000 - start)) = 4000 - start" by simp
    moreover from assms False have "(4000 - start) * 1 \<le> (4000 - start) * add"
      by (intro mult_left_mono) auto
    ultimately show ?thesis by simp
  qed
  then have ex: "\<exists>k. 4000 \<le> start + int k * add" ..
  define k where "k = (LEAST k. 4000 \<le> start + int k * add)"
  from ex have "4000 \<le> start + int k * add" unfolding k_def by (rule LeastI_ex)
  moreover have "\<forall>j<k. start + int j * add < 4000"
  proof (intro allI impI)
    fix j assume "j < k"
    then have "\<not> 4000 \<le> start + int j * add" unfolding k_def by (rule not_less_Least)
    then show "start + int j * add < 4000" by simp
  qed
  ultimately show ?thesis by blast
qed

lemma add_num_closed_form:
  "0 < add \<Longrightarrow> start < 4000 \<Longrightarrow>
   add_num start add = Some (the_sum_is (4000 + (start - 4000) mod add + add))"
proof (induction "nat (4000 - start)" arbitrary: start rule: less_induct)
  case less
  have unf: "add_num start add = add_num (start + add) add"
    using less.prems(2) by (subst add_num.simps) simp
  show ?case
  proof (cases "start + add \<ge> 4000")
    case True
    then have "add_num (start + add) add = Some (the_sum_is (start + add + add))"
      by (subst add_num.simps) simp
    moreover have "(start - 4000) mod add = start - 4000 + add"
    proof -
      have "(start - 4000) mod add = (start - 4000 + add) mod add" by simp
      also from True less.prems have "\<dots> = start - 4000 + add" by (intro mod_pos_pos_trivial) auto
      finally show ?thesis .
    qed
    ultimately show ?thesis using unf by simp
  next
    case False
    with less.prems have "nat (4000 - (start + add)) < nat (4000 - start)" by simp
    moreover from False have "start + add < 4000" by simp
    ultimately have "add_num (start + add) add =
        Some (the_sum_is (4000 + (start + add - 4000) mod add + add))"
      using less.prems(1) by (intro less.hyps)
    moreover have "(start + add - 4000) mod add = (start - 4000) mod add"
    proof -
      have "start + add - 4000 = (start - 4000) + add" by simp
      then show ?thesis by (simp only: mod_add_self2)
    qed
    ultimately show ?thesis using unf by simp
  qed
qed

lemma add_num_complete:
  assumes "add_num start add = Some r"
  shows "\<exists>n. add_num_fuel n start add = Some r"
  using assms by (intro add_num_eval_imp_fuel add_num_imp_eval)

lemma add_num_eval_iff: "add_num_eval start add r \<longleftrightarrow> add_num start add = Some r"
proof
  assume "add_num_eval start add r"
  then obtain n where "add_num_fuel n start add = Some r"
    using add_num_eval_imp_fuel by blast
  then show "add_num start add = Some r" by (rule add_num_fuel_sound)
next
  assume "add_num start add = Some r"
  then show "add_num_eval start add r" by (rule add_num_imp_eval)
qed

lemma add_num_fuel_nonpos:
  "start < 4000 \<Longrightarrow> add \<le> 0 \<Longrightarrow> add_num_fuel n start add = None"
  by (induction n arbitrary: start) auto

lemma add_num_fuel_reach:
  assumes "4000 \<le> start + int k * add" and "\<forall>j<k. start + int j * add < 4000"
  shows "add_num_fuel (Suc k) start add = Some (the_sum_is (start + int k * add + add))"
proof -
  from assms(2) have "add_num_fuel (k + Suc 0) start add = add_num_fuel (Suc 0) (start + int k * add) add"
    by (rule add_num_fuel_unroll)
  with assms(1) show ?thesis by simp
qed

lemma add_num_fuel_first_reach:
  assumes "add_num_fuel n start add = Some r"
  shows "\<exists>k<n. 4000 \<le> start + int k * add \<and> (\<forall>j<k. start + int j * add < 4000) \<and>
           r = the_sum_is (start + int k * add + add)"
  using assms
proof (induction n arbitrary: start)
  case 0
  then show ?case by simp
next
  case (Suc n)
  show ?case
  proof (cases "start \<ge> 4000")
    case True
    with Suc.prems have "r = the_sum_is (start + int 0 * add + add)" by simp
    with True show ?thesis by (intro exI [of _ 0]) simp
  next
    case False
    with Suc.prems have "add_num_fuel n (start + add) add = Some r" by simp
    then obtain k where k: "k < n" "4000 \<le> (start + add) + int k * add"
        "\<forall>j<k. (start + add) + int j * add < 4000"
        "r = the_sum_is ((start + add) + int k * add + add)"
      using Suc.IH by blast
    have "\<forall>j<Suc k. start + int j * add < 4000"
    proof (intro allI impI)
      fix j assume j: "j < Suc k"
      show "start + int j * add < 4000"
      proof (cases j)
        case 0 with False show ?thesis by simp
      next
        case (Suc j')
        with j k(3) have "(start + add) + int j' * add < 4000" by simp
        with Suc show ?thesis by (simp add: algebra_simps)
      qed
    qed
    moreover from k(2) have "4000 \<le> start + int (Suc k) * add" by (simp add: algebra_simps)
    moreover from k(4) have "r = the_sum_is (start + int (Suc k) * add + add)" by (simp add: algebra_simps)
    moreover from k(1) have "Suc k < Suc n" by simp
    ultimately show ?thesis by blast
  qed
qed

lemma add_num_fuel_char:
  assumes "4000 \<le> start + int k * add" and "\<forall>j<k. start + int j * add < 4000"
  shows "add_num_fuel n start add =
           (if k < n then Some (the_sum_is (start + int k * add + add)) else None)"
proof (cases "k < n")
  case True
  then obtain m where n: "n = k + Suc m" using less_iff_Suc_add by auto
  from assms(2) have "add_num_fuel (k + Suc m) start add = add_num_fuel (Suc m) (start + int k * add) add"
    by (rule add_num_fuel_unroll)
  with assms(1) n True show ?thesis by simp
next
  case False
  then have "n \<le> k" by simp
  with assms(2) have "add_num_fuel n start add = None" by (rule add_num_fuel_short)
  with False show ?thesis by simp
qed

lemma first_reach_value:
  assumes "0 < add" and "start < 4000"
    and "4000 \<le> start + int k * add" and "\<forall>j<k. start + int j * add < 4000"
  shows "start + int k * add = 4000 + (start - 4000) mod add"
proof -
  from assms(2,3) obtain k' where k: "k = Suc k'" by (cases k) auto
  with assms(4) have "start + int k' * add < 4000" by blast
  with k have up: "start + int k * add - 4000 < add" by (simp add: algebra_simps)
  from assms(3) have lo: "0 \<le> start + int k * add - 4000" by simp
  have "start - 4000 = (start + int k * add - 4000) + (- int k) * add" by (simp add: algebra_simps)
  then have "(start - 4000) mod add = ((start + int k * add - 4000) + (- int k) * add) mod add"
    by simp
  also have "\<dots> = (start + int k * add - 4000) mod add" by (rule mod_mult_self1)
  also from lo up have "\<dots> = start + int k * add - 4000" by (rule mod_pos_pos_trivial)
  finally show ?thesis by simp
qed

subsection \<open>The observed call\<close>

text \<open>
  The outcome of the observed call is that of the budgeted body, with \<^verbatim>\<open>RecursionError\<close> for the
  budget running out; neither the level nor the state of the client enters it.  Its effect
  on the client is one observation for every activation entered, innermost first.
\<close>

lemma fst_add_num_observed:
  "fst (add_num_observed room lvl start add t) =
     (case add_num_fuel room start add of None \<Rightarrow> Inl RecursionError | Some r \<Rightarrow> Inr r)"
proof (induction room arbitrary: lvl start t)
  case 0
  show ?case by simp
next
  case (Suc room)
  show ?case
  proof (cases "start \<ge> 4000")
    case True
    then show ?thesis by simp
  next
    case False
    then have "fst (add_num_observed (Suc room) lvl start add t) =
        fst (add_num_observed room (Suc lvl) (start + add) add t)"
      by (simp add: split_def Let_def)
    also have "\<dots> = (case add_num_fuel room (start + add) add of
        None \<Rightarrow> Inl RecursionError | Some r \<Rightarrow> Inr r)"
      by (rule Suc.IH)
    finally show ?thesis using False by simp
  qed
qed

lemma fst_add_num_py:
  assumes "4000 \<le> start + int k * add" and "\<forall>j<k. start + int j * add < 4000"
  shows "fst (add_num_py room start add t) =
           (if k < min room recursion_limit then Inr (the_sum_is (start + int k * add + add))
            else Inl RecursionError)"
  unfolding add_num_py_def fst_add_num_observed add_num_fuel_char [OF assms] by simp


lemma snd_add_num_observed:
  "snd (add_num_observed room lvl start add t) =
     t\<lparr>buffered := buffered t @
        rev (map (\<lambda>i. \<lparr>level = lvl + i, arg_start = start + int i * add, arg_add = add,
                        outcome = fst (add_num_observed room lvl start add t)\<rparr>)
               [0..<length (add_num_starts room start add)])\<rparr>"
proof (induction room arbitrary: lvl start t)
  case 0
  show ?case by simp
next
  case (Suc room)
  show ?case
  proof (cases "start \<ge> 4000")
    case True
    then show ?thesis by simp
  next
    case False
    define inner where "inner = add_num_observed room (Suc lvl) (start + add) add t"
    define n where "n = length (add_num_starts room (start + add) add)"
    define ob where "ob = (\<lambda>i. \<lparr>level = lvl + i, arg_start = start + int i * add, arg_add = add,
                        outcome = fst inner\<rparr>)"
    have res: "fst (add_num_observed (Suc room) lvl start add t) = fst inner"
      using False by (simp add: split_def Let_def inner_def)
    have len: "length (add_num_starts (Suc room) start add) = Suc n"
      using False by (simp add: n_def)
    have step: "snd (add_num_observed (Suc room) lvl start add t) =
        (snd inner)\<lparr>buffered := buffered (snd inner) @ [ob 0]\<rparr>"
      using False by (simp add: split_def Let_def inner_def ob_def)
    have IH: "snd inner = t\<lparr>buffered := buffered t @ rev (map (\<lambda>i. ob (Suc i)) [0..<n])\<rparr>"
      unfolding inner_def n_def ob_def using Suc.IH [of "Suc lvl" "start + add" t]
      by (simp add: algebra_simps)
    have "map ob [0..<Suc n] = ob 0 # map (\<lambda>i. ob (Suc i)) [0..<n]"
      by (rule map_upt_Suc)
    then have "rev (map ob [0..<Suc n]) = rev (map (\<lambda>i. ob (Suc i)) [0..<n]) @ [ob 0]"
      by (simp only: rev.simps)
    with step IH have "snd (add_num_observed (Suc room) lvl start add t) =
        t\<lparr>buffered := buffered t @ rev (map ob [0..<Suc n])\<rparr>"
      by (simp only:) simp
    then show ?thesis unfolding len res ob_def .
  qed
qed

subsection \<open>Below the threshold with a positive increment\<close>

text \<open>
  C1, as amended.  For all integers \<open>start < 4000\<close> and \<open>add > 0\<close>, let \<open>T = start + k * add\<close> be
  the first value \<open>\<ge> 4000\<close> of the sequence \<open>start, start + add, start + 2 * add, \<dots>\<close>.  The call
  needs \<open>k + 1\<close> nested activations.  When they fit in the room that the stack has, which the
  ceiling of line 5 bounds by 10000, the call returns the string \<open>The sum is\<close> followed by
  \<open>T + add\<close>; otherwise it raises \<^verbatim>\<open>RecursionError\<close>.
\<close>
theorem add_num_below_threshold:
  assumes "start < 4000" and "0 < add"
  shows "\<exists>k. 4000 \<le> start + int k * add \<and> (\<forall>j<k. start + int j * add < 4000) \<and>
           (\<forall>room t. fst (add_num_py room start add t) =
              (if k < min room recursion_limit
               then Inr (the_sum_is (start + int k * add + add)) else Inl RecursionError))"
proof -
  from assms(2) obtain k where k: "4000 \<le> start + int k * add" "\<forall>j<k. start + int j * add < 4000"
    using first_reach_ex by blast
  then have "fst (add_num_py room start add t) =
      (if k < min room recursion_limit
       then Inr (the_sum_is (start + int k * add + add)) else Inl RecursionError)" for room t
    by (rule fst_add_num_py)
  with k show ?thesis by blast
qed

theorem add_num_below_threshold_witness:
  "(3990::int) < 4000 \<and> (0::int) < 4 \<and>
   fst (add_num_py 100 3990 4 \<lparr>buffered = [], delivered = []\<rparr>) = Inr ''The sum is 4006'' \<and>
   fst (add_num_py 3 3990 4 \<lparr>buffered = [], delivered = []\<rparr>) = Inl RecursionError"
proof -
  have h1: "(3990::int) < 4000" and h2: "(0::int) < 4" by simp_all
  from add_num_below_threshold [OF h1 h2] obtain k where
    a: "(4000::int) \<le> 3990 + int k * 4" and
    b: "\<forall>j<k. 3990 + int j * 4 < (4000::int)" and
    c: "\<forall>room t. fst (add_num_py room 3990 4 t) =
          (if k < min room recursion_limit
           then Inr (the_sum_is (3990 + int k * 4 + 4)) else Inl RecursionError)" by blast
  have "k = 3"
  proof (rule ccontr)
    assume "k \<noteq> 3"
    with a have "3 < k" by arith
    with b have "3990 + int 3 * 4 < (4000::int)" by blast
    then show False by simp
  qed
  with c have "\<forall>room t. fst (add_num_py room 3990 4 t) =
          (if 3 < min room recursion_limit then Inr (the_sum_is 4006) else Inl RecursionError)"
    by simp
  then show ?thesis
    by (simp add: recursion_limit_def the_sum_is_def str_int_def str_nat.simps digit_def)
qed

text \<open>
  Without the proviso on the ceiling the statement fails.  At \<open>start = - 6001\<close>, \<open>add = 1\<close> the
  hypotheses hold and the call needs 10002 nested activations; it raises \<^verbatim>\<open>RecursionError\<close> even
  with all the room that the ceiling allows.
\<close>

theorem add_num_below_threshold_counterexample:
  "(- 6001::int) < 4000 \<and> (0::int) < 1 \<and>
   fst (add_num_py recursion_limit (- 6001) 1 \<lparr>buffered = [], delivered = []\<rparr>) =
     Inl RecursionError"
proof -
  have "(4000::int) \<le> - 6001 + int 10001 * 1" by simp
  moreover have "\<forall>j<10001. (- 6001::int) + int j * 1 < 4000" by auto
  ultimately have "fst (add_num_py recursion_limit (- 6001) 1 \<lparr>buffered = [], delivered = []\<rparr>) =
      (if 10001 < min recursion_limit recursion_limit
       then Inr (the_sum_is (- 6001 + int 10001 * 1 + 1)) else Inl RecursionError)"
    by (rule fst_add_num_py)
  then show ?thesis by (simp add: recursion_limit_def)
qed

subsection \<open>At or above the threshold\<close>

text \<open>
  C2.  For every integer \<open>start \<ge> 4000\<close> and every integer \<open>add\<close>, of any sign, the call
  returns exactly the string \<open>The sum is\<close> followed by \<open>start + add\<close>, and it does so without a
  recursive step: a budget of a single activation is enough, and \<open>start\<close> is the only
  argument the function is ever entered with.
\<close>
theorem add_num_terminal:
  assumes "start \<ge> 4000"
  shows "add_num start add = Some (the_sum_is (start + add)) \<and>
         add_num_fuel (Suc 0) start add = Some (the_sum_is (start + add)) \<and>
         add_num_starts (Suc n) start add = [start]"
  using assms by (simp add: add_num.simps)

theorem add_num_terminal_witness:
  "(4000::int) \<ge> 4000 \<and> add_num 4000 5 = Some ''The sum is 4005'' \<and>
   add_num_fuel (Suc 0) 4000 5 = Some ''The sum is 4005'' \<and>
   add_num_starts (Suc 0) 4000 5 = [4000]"
  using add_num_terminal [of 4000 5 0]
  by (simp add: the_sum_is_def str_int_def str_nat.simps digit_def)

subsection \<open>The returned total, whenever the call returns\<close>

text \<open>
  C3, as amended.  Whenever \<open>add_num start add\<close> returns, the string is \<open>The sum is\<close>
  followed by \<open>T + add\<close>, where \<open>T = start + k * add\<close> is the first value of the sequence
  \<open>start, start + add, \<dots>\<close> that is \<open>\<ge> 4000\<close>; for \<open>add \<ge> 0\<close> this \<open>T\<close> is also the smallest
  value of that form that is \<open>\<ge> 4000\<close>.  The total that is reported is one increment past
  \<open>T\<close>, not \<open>T\<close> itself.
\<close>
theorem add_num_result_when_returns:
  assumes "add_num start add = Some r"
  shows "\<exists>k. 4000 \<le> start + int k * add \<and> (\<forall>j<k. start + int j * add < 4000) \<and>
           r = the_sum_is (start + int k * add + add) \<and>
           (0 \<le> add \<longrightarrow>
              (\<forall>j. 4000 \<le> start + int j * add \<longrightarrow> start + int k * add \<le> start + int j * add))"
proof -
  from assms obtain n where "add_num_fuel n start add = Some r"
    using add_num_complete by blast
  then obtain k where k: "4000 \<le> start + int k * add" "\<forall>j<k. start + int j * add < 4000"
      "r = the_sum_is (start + int k * add + add)"
    using add_num_fuel_first_reach by blast
  have "start + int k * add \<le> start + int j * add"
    if "0 \<le> add" and "4000 \<le> start + int j * add" for j
  proof -
    from k(2) that(2) have "k \<le> j" by (meson not_le)
    then have "int k * add \<le> int j * add"
      using that(1) by (intro mult_right_mono) simp_all
    then show ?thesis by simp
  qed
  with k show ?thesis by blast
qed

theorem add_num_result_when_returns_witness:
  "add_num 3990 4 = Some ''The sum is 4006'' \<and>
   (\<exists>k. (4000::int) \<le> 3990 + int k * 4 \<and> 3990 + int k * 4 + 4 = (4006::int))"
proof -
  have r: "add_num 3990 4 = Some ''The sum is 4006''"
    by (simp add: add_num.simps the_sum_is_def str_int_def str_nat.simps digit_def)
  from add_num_result_when_returns [OF r] obtain k where
    a: "(4000::int) \<le> 3990 + int k * 4" and
    b: "\<forall>j<k. 3990 + int j * 4 < (4000::int)" by blast
  have "k = 3"
  proof (rule ccontr)
    assume "k \<noteq> 3"
    with a have "3 < k" by arith
    with b have "3990 + int 3 * 4 < (4000::int)" by blast
    then show False by simp
  qed
  with a have "(4000::int) \<le> 3990 + int k * 4 \<and> 3990 + int k * 4 + 4 = (4006::int)" by simp
  with r show ?thesis by blast
qed

text \<open>
  The contract as the specification words it, with \<open>T\<close> itself as the reported total, fails.
  At \<open>start = 4000\<close>, \<open>add = 5\<close> the smallest value of the form \<open>4000 + k * 5\<close> that is
  \<open>\<ge> 4000\<close> is 4000 (\<open>k = 0\<close>), and the call returns \<open>The sum is 4005\<close>.  At \<open>start = 4006\<close>,
  \<open>add = - 3\<close> the value \<open>4006 + 2 * (- 3) = 4000\<close> is of the required form, is \<open>\<ge> 4000\<close> and
  is smaller than the first value 4006, and the call returns \<open>The sum is 4003\<close>.
\<close>

theorem add_num_contract_counterexample:
  "add_num 4000 5 = Some ''The sum is 4005'' \<and>
   add_num 4000 5 \<noteq> Some (the_sum_is (4000 + int 0 * 5)) \<and>
   add_num 4006 (- 3) = Some ''The sum is 4003'' \<and>
   (4000::int) \<le> 4006 + int 2 * (- 3) \<and>
   4006 + int 2 * (- 3) < (4006::int) + int 0 * (- 3) \<and>
   add_num 4006 (- 3) \<noteq> Some (the_sum_is (4006 + int 2 * (- 3)))"
  by (simp add: add_num.simps the_sum_is_def str_int_def str_nat.simps digit_def)

subsection \<open>Below the threshold with a non-positive increment\<close>

text \<open>
  C4.  For every integer \<open>start < 4000\<close> and every integer \<open>add \<le> 0\<close> the call never reaches
  the terminal branch: the partial function has no result, and the budgeted function has
  no result for any budget of nested activations.
\<close>
theorem add_num_unbounded:
  assumes "start < 4000" and "add \<le> 0"
  shows "add_num start add = None \<and> (\<forall>n. add_num_fuel n start add = None)"
proof -
  have fuel: "add_num_fuel n start add = None" for n
    using assms by (rule add_num_fuel_nonpos)
  have "add_num start add = None"
  proof (cases "add_num start add")
    case None then show ?thesis .
  next
    case (Some r)
    then obtain n where "add_num_fuel n start add = Some r" using add_num_complete by blast
    with fuel show ?thesis by simp
  qed
  with fuel show ?thesis by simp
qed

theorem add_num_unbounded_witness:
  "(10::int) < 4000 \<and> (0::int) \<le> 0 \<and> add_num 10 0 = None \<and> add_num_fuel 7 10 0 = None"
  using add_num_unbounded [of 10 0] by simp

subsection \<open>The recursion and the loop\<close>






subsection \<open>The entry point\<close>



lemma add_num_py_entry_fails:
  assumes "room < 3999"
  shows "fst (add_num_py room 2 1 t) = Inl RecursionError"
proof -
  have a: "(4000::int) \<le> 2 + int 3998 * 1" by simp
  have b: "\<forall>j<3998. (2::int) + int j * 1 < 4000" by auto
  have "fst (add_num_py room 2 1 t) =
      (if 3998 < min room recursion_limit
       then Inr (the_sum_is (2 + int 3998 * 1 + 1)) else Inl RecursionError)"
    by (rule fst_add_num_py [OF a b])
  with assms show ?thesis by simp
qed



text \<open>
  With less room the call raises \<^verbatim>\<open>RecursionError\<close>, nothing is flushed, and the exit status
  is 1.
\<close>

lemma script_fails:
  assumes "room < 3999"
  shows "exit_status (script room initial) = Some 1 \<and>
         stderr (script room initial) = [''RecursionError''] \<and>
         delivered (client (script room initial)) = []"
proof -
  from assms have "fst (add_num_py room 2 1 (client initial)) = Inl RecursionError"
    by (rule add_num_py_entry_fails)
  moreover have "delivered (snd (add_num_py room 2 1 (client initial))) = []"
    unfolding add_num_py_def snd_add_num_observed by (simp add: initial_def)
  ultimately show ?thesis
    by (simp add: script_def call_add_num_def uncaught_def traceback_def initial_def split_def)
qed

subsection \<open>A negative increment above the threshold\<close>

text \<open>
  C7.  \<open>add_num 5000 (- 3)\<close> returns \<open>The sum is 4997\<close> from the terminal branch at once: a
  budget of a single activation is enough, although the increment is negative.
\<close>
theorem add_num_5000_minus_3:
  "add_num 5000 (- 3) = Some ''The sum is 4997'' \<and>
   add_num_fuel (Suc 0) 5000 (- 3) = Some ''The sum is 4997''"
  by (simp add: add_num.simps the_sum_is_def str_int_def str_nat.simps digit_def)

subsection \<open>Determinism\<close>

text \<open>
  C8.  The function is deterministic, and no hidden state influences what it returns: if
  two calls with the same arguments \<open>start\<close> and \<open>add\<close> both return, whatever room the stack has
  at each call, whatever the nesting level, and whatever the state of the tracing client, the
  two returned strings are identical.
\<close>
theorem add_num_observed_deterministic:
  assumes "fst (add_num_observed room1 lvl1 start add t1) = Inr r1"
    and "fst (add_num_observed room2 lvl2 start add t2) = Inr r2"
  shows "r1 = r2"
proof -
  from assms(1) have "add_num_fuel room1 start add = Some r1"
    by (simp add: fst_add_num_observed split: option.splits)
  then have "add_num start add = Some r1" by (rule add_num_fuel_sound)
  moreover from assms(2) have "add_num_fuel room2 start add = Some r2"
    by (simp add: fst_add_num_observed split: option.splits)
  then have "add_num start add = Some r2" by (rule add_num_fuel_sound)
  ultimately show ?thesis by simp
qed

theorem add_num_observed_deterministic_witness:
  "fst (add_num_observed 5 0 3999 1 \<lparr>buffered = [], delivered = []\<rparr>) = Inr ''The sum is 4001'' \<and>
   fst (add_num_observed 9 3 3999 1
     \<lparr>buffered = [\<lparr>level = 0, arg_start = 7, arg_add = 8, outcome = Inl RecursionError\<rparr>],
      delivered = []\<rparr>) = Inr (the_sum_is (4000 + 1)) \<and>
   ''The sum is 4001'' = the_sum_is (4000 + 1)"
proof -
  have reach: "(4000::int) \<le> 3999 + int 1 * 1" "\<forall>j<1. (3999::int) + int j * 1 < 4000"
    by simp_all
  have fuel: "add_num_fuel n 3999 1 = (if 1 < n then Some (the_sum_is (3999 + int 1 * 1 + 1)) else None)"
    for n by (rule add_num_fuel_char [OF reach])
  have a: "fst (add_num_observed 5 0 3999 1 \<lparr>buffered = [], delivered = []\<rparr>) =
      Inr ''The sum is 4001''"
    unfolding fst_add_num_observed fuel
    by (simp add: the_sum_is_def str_int_def str_nat.simps digit_def)
  have b: "fst (add_num_observed 9 3 3999 1
     \<lparr>buffered = [\<lparr>level = 0, arg_start = 7, arg_add = 8, outcome = Inl RecursionError\<rparr>],
      delivered = []\<rparr>) = Inr (the_sum_is (4000 + 1))"
    unfolding fst_add_num_observed fuel by simp
  from add_num_observed_deterministic [OF a b] a b show ?thesis by simp
qed

subsection \<open>The arguments of the successive activations\<close>

lemma add_num_starts_nth:
  "i < length (add_num_starts n start add) \<Longrightarrow> add_num_starts n start add ! i = start + int i * add"
proof (induction n arbitrary: start i)
  case 0
  then show ?case by simp
next
  case (Suc n)
  show ?case
  proof (cases i)
    case 0
    then show ?thesis by simp
  next
    case (Suc i')
    with Suc.prems have low: "\<not> start \<ge> 4000" and "i' < length (add_num_starts n (start + add) add)"
      by (auto split: if_splits)
    then have "add_num_starts n (start + add) add ! i' = (start + add) + int i' * add"
      by (intro Suc.IH)
    with low Suc show ?thesis by (simp add: algebra_simps)
  qed
qed

lemma add_num_starts_below:
  "Suc i < length (add_num_starts n start add) \<Longrightarrow> add_num_starts n start add ! i < 4000"
proof (induction n arbitrary: start i)
  case 0
  then show ?case by simp
next
  case (Suc n)
  from Suc.prems have low: "\<not> start \<ge> 4000" by (auto split: if_splits)
  show ?case
  proof (cases i)
    case 0
    with low show ?thesis by simp
  next
    case (Suc i')
    with Suc.prems low have "Suc i' < length (add_num_starts n (start + add) add)" by simp
    then have "add_num_starts n (start + add) add ! i' < 4000" by (rule Suc.IH)
    with low Suc show ?thesis by simp
  qed
qed


lemma add_num_starts_head:
  "0 < n \<Longrightarrow> add_num_starts n start add \<noteq> [] \<and> hd (add_num_starts n start add) = start"
  by (cases n) simp_all

lemma add_num_starts_next:
  "i < length (add_num_starts n start add) \<Longrightarrow> add_num_starts n start add ! i < 4000 \<Longrightarrow>
   Suc i < n \<Longrightarrow> Suc i < length (add_num_starts n start add)"
proof (induction n arbitrary: start i)
  case 0
  then show ?case by simp
next
  case (Suc n)
  show ?case
  proof (cases i)
    case 0
    with Suc.prems obtain m where "n = Suc m" by (cases n) auto
    with 0 Suc.prems show ?thesis by simp
  next
    case (Suc i')
    with Suc.prems(1) have low: "\<not> start \<ge> 4000" by (auto split: if_splits)
    with Suc Suc.prems have "i' < length (add_num_starts n (start + add) add)"
      "add_num_starts n (start + add) add ! i' < 4000" "Suc i' < n" by simp_all
    then have "Suc i' < length (add_num_starts n (start + add) add)" by (rule Suc.IH)
    with low Suc show ?thesis by simp
  qed
qed

text \<open>
  The budgeted function is determined by the list of arguments: it returns when the last
  activation listed is at or above the threshold.
\<close>

lemma add_num_fuel_starts:
  "add_num_fuel n start add =
     (if add_num_starts n start add \<noteq> [] \<and> last (add_num_starts n start add) \<ge> 4000
      then Some (the_sum_is (last (add_num_starts n start add) + add)) else None)"
  by (induction n arbitrary: start) auto

text \<open>
  C9.  With \<open>add > 0\<close>, the activations of a call that is entered start with \<open>start\<close>; every
  activation with \<open>start < 4000\<close> for which the stack has room is followed by another one; each
  activation that is followed by another one has \<open>start < 4000\<close> and hands on exactly
  \<open>start + add\<close>, so that the values of \<open>start\<close> are strictly increasing; and the result of the
  call is the one the last activation computes from its \<open>start\<close>.
\<close>
theorem add_num_starts_increasing:
  assumes "0 < add" and "0 < n"
  shows "add_num_starts n start add \<noteq> [] \<and> hd (add_num_starts n start add) = start \<and>
         (\<forall>i. i < length (add_num_starts n start add) \<and> add_num_starts n start add ! i < 4000 \<and>
              Suc i < n \<longrightarrow>
            Suc i < length (add_num_starts n start add)) \<and>
         (\<forall>i. Suc i < length (add_num_starts n start add) \<longrightarrow>
            add_num_starts n start add ! i < 4000 \<and>
            add_num_starts n start add ! Suc i = add_num_starts n start add ! i + add \<and>
            add_num_starts n start add ! i < add_num_starts n start add ! Suc i) \<and>
         sorted_wrt (<) (add_num_starts n start add) \<and>
         add_num_fuel n start add =
           (if last (add_num_starts n start add) \<ge> 4000
            then Some (the_sum_is (last (add_num_starts n start add) + add)) else None)"
proof -
  let ?tr = "add_num_starts n start add"
  from assms(2) have head: "?tr \<noteq> [] \<and> hd ?tr = start" by (rule add_num_starts_head)
  have "next": "\<forall>i. i < length ?tr \<and> ?tr ! i < 4000 \<and> Suc i < n \<longrightarrow> Suc i < length ?tr"
    using add_num_starts_next by blast
  have step: "\<forall>i. Suc i < length ?tr \<longrightarrow>
      ?tr ! i < 4000 \<and> ?tr ! Suc i = ?tr ! i + add \<and> ?tr ! i < ?tr ! Suc i"
  proof (intro allI impI)
    fix i assume i: "Suc i < length ?tr"
    then have "?tr ! i = start + int i * add" "?tr ! Suc i = start + int (Suc i) * add"
      by (simp_all add: add_num_starts_nth)
    with assms(1) add_num_starts_below [OF i]
    show "?tr ! i < 4000 \<and> ?tr ! Suc i = ?tr ! i + add \<and> ?tr ! i < ?tr ! Suc i"
      by (simp add: algebra_simps)
  qed
  have sorted: "sorted_wrt (<) ?tr"
  proof (unfold sorted_wrt_iff_nth_less, intro allI impI)
    fix i j assume "i < j" "j < length ?tr"
    then have "?tr ! i = start + int i * add" "?tr ! j = start + int j * add"
      by (simp_all add: add_num_starts_nth)
    moreover from \<open>i < j\<close> assms(1) have "int i * add < int j * add" by simp
    ultimately show "?tr ! i < ?tr ! j" by simp
  qed
  have fuel: "add_num_fuel n start add =
      (if last ?tr \<ge> 4000 then Some (the_sum_is (last ?tr + add)) else None)"
    using head by (simp add: add_num_fuel_starts)
  from head "next" step sorted fuel show ?thesis by blast
qed

theorem add_num_starts_increasing_witness:
  "(0::int) < 4 \<and> (0::nat) < 10 \<and> add_num_starts 10 3990 4 = [3990, 3994, 3998, 4002] \<and>
   sorted_wrt (<) (add_num_starts 10 3990 4) \<and>
   add_num_starts 10 3990 4 ! Suc 1 = add_num_starts 10 3990 4 ! 1 + 4 \<and>
   add_num_fuel 10 3990 4 = Some ''The sum is 4006''"
proof -
  have h: "(0::int) < 4" "(0::nat) < 10" by simp_all
  have tr: "add_num_starts 10 3990 4 = [3990, 3994, 3998, 4002]" by code_simp
  from add_num_starts_increasing [OF h, of 3990] tr h show ?thesis
    by (simp add: the_sum_is_def str_int_def str_nat.simps digit_def)
qed

subsection \<open>Dependence on the residue only\<close>

text \<open>
  C10, as amended.  For every \<open>add > 0\<close> and all \<open>s1 < 4000\<close>, \<open>s2 < 4000\<close> that are congruent
  modulo \<open>add\<close>, the two calls reach the same first value \<open>T \<ge> 4000\<close>, and each of them that
  returns returns the string \<open>The sum is\<close> followed by \<open>T + add\<close>.  Whether a call returns depends
  on \<open>start\<close> as well: it raises \<^verbatim>\<open>RecursionError\<close> when the nested activations it needs do not
  fit under the ceiling of line 5 and in the room that the stack has.
\<close>
theorem add_num_residue:
  assumes "0 < add" and "s1 < 4000" and "s2 < 4000" and "s1 mod add = s2 mod add"
  shows "\<exists>k1 k2.
           4000 \<le> s1 + int k1 * add \<and> (\<forall>j<k1. s1 + int j * add < 4000) \<and>
           4000 \<le> s2 + int k2 * add \<and> (\<forall>j<k2. s2 + int j * add < 4000) \<and>
           s1 + int k1 * add = s2 + int k2 * add \<and>
           (\<forall>room t. fst (add_num_py room s1 add t) =
              (if k1 < min room recursion_limit
               then Inr (the_sum_is (s1 + int k1 * add + add)) else Inl RecursionError)) \<and>
           (\<forall>room t. fst (add_num_py room s2 add t) =
              (if k2 < min room recursion_limit
               then Inr (the_sum_is (s1 + int k1 * add + add)) else Inl RecursionError))"
proof -
  from assms(1) obtain k1 where k1: "4000 \<le> s1 + int k1 * add" "\<forall>j<k1. s1 + int j * add < 4000"
    using first_reach_ex by blast
  from assms(1) obtain k2 where k2: "4000 \<le> s2 + int k2 * add" "\<forall>j<k2. s2 + int j * add < 4000"
    using first_reach_ex by blast
  from assms(4) have "(s1 - 4000) mod add = (s2 - 4000) mod add"
    by (rule mod_diff_cong) simp
  moreover from assms(1,2) k1 have "s1 + int k1 * add = 4000 + (s1 - 4000) mod add"
    by (rule first_reach_value)
  moreover from assms(1,3) k2 have "s2 + int k2 * add = 4000 + (s2 - 4000) mod add"
    by (rule first_reach_value)
  ultimately have same: "s1 + int k1 * add = s2 + int k2 * add" by simp
  from k1 have c1: "fst (add_num_py room s1 add t) =
      (if k1 < min room recursion_limit
       then Inr (the_sum_is (s1 + int k1 * add + add)) else Inl RecursionError)" for room t
    by (rule fst_add_num_py)
  from k2 have "fst (add_num_py room s2 add t) =
      (if k2 < min room recursion_limit
       then Inr (the_sum_is (s2 + int k2 * add + add)) else Inl RecursionError)" for room t
    by (rule fst_add_num_py)
  with same have c2: "fst (add_num_py room s2 add t) =
      (if k2 < min room recursion_limit
       then Inr (the_sum_is (s1 + int k1 * add + add)) else Inl RecursionError)" for room t
    by simp
  from k1 k2 same c1 c2 show ?thesis by blast
qed

theorem add_num_residue_witness:
  "(0::int) < 7 \<and> (3::int) < 4000 \<and> (703::int) < 4000 \<and> (3::int) mod 7 = 703 mod 7 \<and>
   fst (add_num_py 1000 3 7 \<lparr>buffered = [], delivered = []\<rparr>) = Inr ''The sum is 4007'' \<and>
   fst (add_num_py 1000 703 7 \<lparr>buffered = [], delivered = []\<rparr>) = Inr ''The sum is 4007''"
proof -
  have h: "(0::int) < 7" "(3::int) < 4000" "(703::int) < 4000" "(3::int) mod 7 = 703 mod 7"
    by simp_all
  from add_num_residue [OF h] obtain k1 k2 where
    a: "(4000::int) \<le> 3 + int k1 * 7" and
    b: "\<forall>j<k1. 3 + int j * 7 < (4000::int)" and
    a2: "(4000::int) \<le> 703 + int k2 * 7" and
    b2: "\<forall>j<k2. 703 + int j * 7 < (4000::int)" and
    c1: "\<forall>room t. fst (add_num_py room 3 7 t) =
          (if k1 < min room recursion_limit
           then Inr (the_sum_is (3 + int k1 * 7 + 7)) else Inl RecursionError)" and
    c2: "\<forall>room t. fst (add_num_py room 703 7 t) =
          (if k2 < min room recursion_limit
           then Inr (the_sum_is (3 + int k1 * 7 + 7)) else Inl RecursionError)" by blast
  have k1: "k1 = 571"
  proof (rule ccontr)
    assume "k1 \<noteq> 571"
    then consider "k1 < 571" | "571 < k1" by arith
    then show False
    proof cases
      case 1 with a show False by arith
    next
      case 2
      with b have "3 + int 571 * 7 < (4000::int)" by blast
      then show False by simp
    qed
  qed
  have k2: "k2 = 471"
  proof (rule ccontr)
    assume "k2 \<noteq> 471"
    then consider "k2 < 471" | "471 < k2" by arith
    then show False
    proof cases
      case 1 with a2 show False by arith
    next
      case 2
      with b2 have "703 + int 471 * 7 < (4000::int)" by blast
      then show False by simp
    qed
  qed
  from c1 have "fst (add_num_py 1000 3 7 \<lparr>buffered = [], delivered = []\<rparr>) =
      (if k1 < min 1000 recursion_limit
       then Inr (the_sum_is (3 + int k1 * 7 + 7)) else Inl RecursionError)" by blast
  with k1 have one: "fst (add_num_py 1000 3 7 \<lparr>buffered = [], delivered = []\<rparr>) =
      Inr ''The sum is 4007''"
    by (simp add: recursion_limit_def the_sum_is_def str_int_def str_nat.simps digit_def)
  from c2 have "fst (add_num_py 1000 703 7 \<lparr>buffered = [], delivered = []\<rparr>) =
      (if k2 < min 1000 recursion_limit
       then Inr (the_sum_is (3 + int k1 * 7 + 7)) else Inl RecursionError)" by blast
  with k1 k2 have two: "fst (add_num_py 1000 703 7 \<lparr>buffered = [], delivered = []\<rparr>) =
      Inr ''The sum is 4007''"
    by (simp add: recursion_limit_def the_sum_is_def str_int_def str_nat.simps digit_def)
  from one two h show ?thesis by simp
qed

text \<open>
  Two congruent starts need not give the same outcome.  With \<open>add = 1\<close> all starts are
  congruent; the call at \<open>start = 3999\<close> returns \<open>The sum is 4001\<close>, and the call at
  \<open>start = - 6001\<close> raises \<^verbatim>\<open>RecursionError\<close>.
\<close>

theorem add_num_residue_counterexample:
  "(0::int) < 1 \<and> (3999::int) < 4000 \<and> (- 6001::int) < 4000 \<and>
   (3999::int) mod 1 = (- 6001) mod 1 \<and>
   fst (add_num_py recursion_limit 3999 1 \<lparr>buffered = [], delivered = []\<rparr>) =
     Inr ''The sum is 4001'' \<and>
   fst (add_num_py recursion_limit (- 6001) 1 \<lparr>buffered = [], delivered = []\<rparr>) =
     Inl RecursionError"
proof -
  have a: "(4000::int) \<le> 3999 + int 1 * 1" by simp
  have b: "\<forall>j<1. (3999::int) + int j * 1 < 4000" by auto
  have "fst (add_num_py recursion_limit 3999 1 \<lparr>buffered = [], delivered = []\<rparr>) =
      (if 1 < min recursion_limit recursion_limit
       then Inr (the_sum_is (3999 + int 1 * 1 + 1)) else Inl RecursionError)"
    by (rule fst_add_num_py [OF a b])
  then have one: "fst (add_num_py recursion_limit 3999 1 \<lparr>buffered = [], delivered = []\<rparr>) =
      Inr ''The sum is 4001''"
    by (simp add: recursion_limit_def the_sum_is_def str_int_def str_nat.simps digit_def)
  have a': "(4000::int) \<le> - 6001 + int 10001 * 1" by simp
  have b': "\<forall>j<10001. (- 6001::int) + int j * 1 < 4000" by auto
  have "fst (add_num_py recursion_limit (- 6001) 1 \<lparr>buffered = [], delivered = []\<rparr>) =
      (if 10001 < min recursion_limit recursion_limit
       then Inr (the_sum_is (- 6001 + int 10001 * 1 + 1)) else Inl RecursionError)"
    by (rule fst_add_num_py [OF a' b'])
  then have two: "fst (add_num_py recursion_limit (- 6001) 1 \<lparr>buffered = [], delivered = []\<rparr>) =
      Inl RecursionError"
    by (simp add: recursion_limit_def)
  from one two show ?thesis by simp
qed

end
